theory Spec2Isabelle
  imports Main "HOL-Library.Word"
begin

section \<open>Data model of uperm.h\<close>

text \<open>
  \<^verbatim>\<open>size_t\<close> is the 64-bit unsigned type of the counting functions: \<open>+\<close>, \<open>-\<close> and
  \<open>*\<close> wrap around. The loop variables \<^verbatim>\<open>I\<close> and \<^verbatim>\<open>J\<close> of the enumerator and
  the two fields of \<^verbatim>\<open>index_permutation\<close> are \<^verbatim>\<open>size_t\<close> as well. There they are
  held as natural numbers: an increment \<^verbatim>\<open>I++\<close>, \<^verbatim>\<open>J++\<close> or \<^verbatim>\<open>I+1\<close> is only
  reached below a loop bound that is itself a \<^verbatim>\<open>size_t\<close>, so it cannot wrap, and the
  conversions between \<^verbatim>\<open>int\<close> and \<^verbatim>\<open>size_t\<close> write the wrap-around out
  (\<open>size_t_of_int\<close> and \<open>int_of_size_t\<close> below).
\<close>

type_synonym size_t = "64 word"

text \<open>\<^verbatim>\<open>struct index_permutation { size_t first; size_t second; };\<close>\<close>

record index_permutation =
  first :: nat
  second :: nat

text \<open>
  The ways in which the enumerator ends without a result. \<open>OutOfBounds\<close>: it writes
  outside one of its arrays, through \<^verbatim>\<open>operator[]\<close> or through the iterator into the
  result vector (no defined behaviour in C++; the program ends in a memory fault).
  \<open>LengthError\<close>: the constructor of the result vector throws \<^verbatim>\<open>std::length_error\<close>.
  \<open>Diverges\<close>: a loop of the counter never ends.
\<close>

datatype error = OutOfBounds | Diverges | LengthError

section \<open>Counter\<close>

text \<open>
  \<^verbatim>\<open>return (N-MIN > 0 && MIN <= N-2) ? (N-MIN)*(N-MIN-1)/2 : 0;\<close>
\<close>

definition num_unique_pairs_ge_min :: "size_t \<Rightarrow> size_t \<Rightarrow> size_t" where
  "num_unique_pairs_ge_min N MIN' =
     (if N - MIN' > 0 \<and> MIN' \<le> N - 2 then (N - MIN') * (N - MIN' - 1) div 2 else 0)"

text \<open>\<^verbatim>\<open>return ( N > 0 ) ? (N)*(N-1)/2 : 0;\<close>\<close>

definition num_unique_pairs :: "size_t \<Rightarrow> size_t" where
  "num_unique_pairs N = (if N > 0 then N * (N - 1) div 2 else 0)"

text \<open>\<^verbatim>\<open>return ( N > 0 && MAX >= 0) ? (2*N*MAX - MAX*MAX - MAX)/2 : 0;\<close>\<close>

definition num_unique_pairs_lt_max :: "size_t \<Rightarrow> size_t \<Rightarrow> size_t" where
  "num_unique_pairs_lt_max N MAX' =
     (if N > 0 \<and> MAX' \<ge> 0 then (2 * N * MAX' - MAX' * MAX' - MAX') div 2 else 0)"

text \<open>
  The summation loop of both permutation counters,
  \<^verbatim>\<open>for (size_t I=...; I <= N-2 ; I++) { total += (N-I - 1) * num_unique_permutations_ge_min(N,L-1,I); }\<close>
  with the recursive call as the parameter \<open>f\<close>, the current value of \<^verbatim>\<open>I\<close> and the
  running \<^verbatim>\<open>total\<close>. With \<open>N - 2 = 2 ^ 64 - 1\<close> the test \<^verbatim>\<open>I <= N-2\<close> never fails,
  so the loop is a partial function: \<open>None\<close> is the loop that does not end.
\<close>

partial_function (option) total_loop ::
  "(size_t \<Rightarrow> size_t option) \<Rightarrow> size_t \<Rightarrow> size_t \<Rightarrow> size_t \<Rightarrow> size_t option" where
  "total_loop f N I tot =
     (if I \<le> N - 2
      then (case f I of None \<Rightarrow> None
            | Some r \<Rightarrow> total_loop f N (I + 1) (tot + (N - I - 1) * r))
      else Some tot)"

text \<open>
  \<^verbatim>\<open>num_unique_permutations_ge_min(N, L, MIN)\<close>: the test \<^verbatim>\<open>L < 0\<close> of the source is
  kept, although no unsigned value passes it.
\<close>

function num_unique_permutations_ge_min :: "size_t \<Rightarrow> size_t \<Rightarrow> size_t \<Rightarrow> size_t option" where
  "num_unique_permutations_ge_min N L MIN' =
     (if L = 0 then Some 1
      else if L < 0 \<or> MIN' > N - 2 then Some 0
      else total_loop (\<lambda>I. num_unique_permutations_ge_min N (L - 1) I) N (MIN' + 1) 0)"
  by pat_completeness auto
termination
proof (relation "measure (\<lambda>(N, L, MIN'). unat L)")
  show "wf (measure (\<lambda>(N :: size_t, L :: size_t, MIN' :: size_t). unat L))"
    by simp
next
  fix N L MIN' I :: size_t
  assume "L \<noteq> 0"
  then have "unat (L - 1) < unat L"
    by (simp add: unat_minus_one unat_gt_0)
  then show "((N, L - 1, I), (N, L, MIN')) \<in> measure (\<lambda>(N, L, MIN'). unat L)"
    by simp
qed

declare num_unique_permutations_ge_min.simps [simp del]

text \<open>\<^verbatim>\<open>num_unique_permutations(N, L)\<close>, whose loop starts at \<^verbatim>\<open>I=0\<close>.\<close>

definition num_unique_permutations :: "size_t \<Rightarrow> size_t \<Rightarrow> size_t option" where
  "num_unique_permutations N L =
     (if L = 0 then Some 1
      else if L > N - 1 then Some 0
      else total_loop (\<lambda>I. num_unique_permutations_ge_min N (L - 1) I) N 0 0)"

section \<open>Executor\<close>

text \<open>
  \<^verbatim>\<open>std::iter_swap(OUT.begin()+a, OUT.begin()+b)\<close> on a container with value
  semantics, held as a list. The source tests nothing here and the swap has no failing
  path: it exchanges what the two iterators point at, inside the collection or not.
  For an iterator outside the collection the value read is the one of \<open>xs ! b\<close> beyond
  the length of \<open>xs\<close>, of which nothing is known, and the value written lands outside
  the collection and changes none of its elements (an update of a list beyond its
  length leaves the list as it is).
\<close>

definition iter_swap :: "'a list \<Rightarrow> nat \<Rightarrow> nat \<Rightarrow> error + 'a list" where
  "iter_swap xs a b = Inr (xs[a := xs ! b, b := xs ! a])"

text \<open>
  The two objects of \<^verbatim>\<open>execute_permutations\<close>: the caller's \<^verbatim>\<open>IN\<close>, passed by
  reference to const, and the local copy \<^verbatim>\<open>OUT\<close>.
\<close>

record 'a exec_frame =
  exec_IN :: "'a list"
  exec_OUT :: "'a list"

text \<open>\<^verbatim>\<open>for (auto const& perm : PLIST) { std::iter_swap(...); }\<close>\<close>

fun exec_loop :: "index_permutation list \<Rightarrow> 'a exec_frame \<Rightarrow> error + 'a exec_frame" where
  "exec_loop [] fr = Inr fr"
| "exec_loop (perm # rest) fr =
     (case iter_swap (exec_OUT fr) (first perm) (second perm) of
        Inl e \<Rightarrow> Inl e
      | Inr ys \<Rightarrow> exec_loop rest (fr\<lparr>exec_OUT := ys\<rparr>))"

text \<open>\<^verbatim>\<open>T OUT = IN; ...; return OUT;\<close>\<close>

definition execute_permutations :: "index_permutation list \<Rightarrow> 'a list \<Rightarrow> error + 'a list" where
  "execute_permutations PLIST xs =
     (case exec_loop PLIST \<lparr>exec_IN = xs, exec_OUT = xs\<rparr> of
        Inl e \<Rightarrow> Inl e
      | Inr fr \<Rightarrow> Inr (exec_OUT fr))"

section \<open>Enumerator\<close>

text \<open>
  The template parameters \<^verbatim>\<open>N\<close>, \<^verbatim>\<open>LMAX\<close> and the arguments \<^verbatim>\<open>L\<close>, \<^verbatim>\<open>X\<close>,
  \<^verbatim>\<open>MIN\<close> of \<^verbatim>\<open>inner_permutation_loop\<close> are C++ \<^verbatim>\<open>int\<close>s, modelled as
  integers; the theorems below assume them within the range of a 32-bit \<^verbatim>\<open>int\<close>. A
  comparison of a \<^verbatim>\<open>size_t\<close> with an \<^verbatim>\<open>int\<close> converts the \<^verbatim>\<open>int\<close> to
  \<^verbatim>\<open>size_t\<close>, where a negative value wraps around; passing a \<^verbatim>\<open>size_t\<close> for an
  \<^verbatim>\<open>int\<close> parameter keeps the low 32 bits, read as two's complement.
\<close>

definition size_t_of_int :: "int \<Rightarrow> nat" where
  "size_t_of_int i = nat (i mod 2 ^ 64)"

definition int_of_size_t :: "nat \<Rightarrow> int" where
  "int_of_size_t n = (let m = int n mod 2 ^ 32 in if m < 2 ^ 31 then m else m - 2 ^ 32)"

text \<open>
  The objects the enumeration writes: the buffer \<^verbatim>\<open>TMP\<close> of the sequence under
  construction, the result vector \<^verbatim>\<open>OUT\<close>, and the iterator \<^verbatim>\<open>ELEMENT\<close>
  (\<^verbatim>\<open>LIST_ELEMENT\<close> inside \<^verbatim>\<open>inner_permutation_loop\<close>), held as its distance from
  \<^verbatim>\<open>OUT.begin()\<close>.
\<close>

record perm_state =
  TMP :: "index_permutation list"
  OUT :: "index_permutation list list"
  ELEMENT :: nat

text \<open>
  \<^verbatim>\<open>std::copy(TMP.begin(),TMP.end(),(*LIST_ELEMENT).begin()); LIST_ELEMENT++;\<close>
  The iterator has to point at an element of \<^verbatim>\<open>OUT\<close>.
\<close>

definition copy_TMP :: "perm_state \<Rightarrow> error + perm_state" where
  "copy_TMP st =
     (if ELEMENT st < length (OUT st)
      then Inr (st\<lparr>OUT := (OUT st)[ELEMENT st := TMP st], ELEMENT := ELEMENT st + 1\<rparr>)
      else Inl OutOfBounds)"

text \<open>\<^verbatim>\<open>TMP[X] = {I,J};\<close> with the \<^verbatim>\<open>int\<close> index converted to \<^verbatim>\<open>size_t\<close>.\<close>

definition assign_TMP :: "int \<Rightarrow> index_permutation \<Rightarrow> perm_state \<Rightarrow> error + perm_state" where
  "assign_TMP X p st =
     (if size_t_of_int X < length (TMP st)
      then Inr (st\<lparr>TMP := (TMP st)[size_t_of_int X := p]\<rparr>)
      else Inl OutOfBounds)"

text \<open>
  \<^verbatim>\<open>inner_permutation_loop<N,LMAX>(L, X, MIN, TMP, LIST_ELEMENT)\<close> with its two nested
  loops: \<open>loop_I\<close> is \<^verbatim>\<open>for (size_t I=MIN;I < std::min(N - L,N - 1) ; I++)\<close> from the
  current \<^verbatim>\<open>I\<close> on, \<open>loop_J\<close> is \<^verbatim>\<open>for (size_t J=I+1; J < N ; J++)\<close> from the
  current \<^verbatim>\<open>J\<close> on.
\<close>

function inner_permutation_loop ::
    "int \<Rightarrow> int \<Rightarrow> int \<Rightarrow> int \<Rightarrow> int \<Rightarrow> perm_state \<Rightarrow> error + perm_state"
  and loop_I :: "int \<Rightarrow> int \<Rightarrow> int \<Rightarrow> int \<Rightarrow> nat \<Rightarrow> perm_state \<Rightarrow> error + perm_state"
  and loop_J :: "int \<Rightarrow> int \<Rightarrow> int \<Rightarrow> int \<Rightarrow> nat \<Rightarrow> nat \<Rightarrow> perm_state \<Rightarrow> error + perm_state"
  where
  "inner_permutation_loop N LMAX L X MIN' st =
     (if X > LMAX - 1 \<or> L < 0 then copy_TMP st
      else loop_I N LMAX L X (size_t_of_int MIN') st)"
| "loop_I N LMAX L X I st =
     (if I < size_t_of_int (min (N - L) (N - 1))
      then (case loop_J N LMAX L X I (I + 1) st of
              Inl e \<Rightarrow> Inl e
            | Inr st' \<Rightarrow> loop_I N LMAX L X (I + 1) st')
      else Inr st)"
| "loop_J N LMAX L X I J st =
     (if J < size_t_of_int N
      then (case assign_TMP X \<lparr>first = I, second = J\<rparr> st of
              Inl e \<Rightarrow> Inl e
            | Inr st1 \<Rightarrow>
                (case inner_permutation_loop N LMAX (L - 1) (X + 1) (int_of_size_t (I + 1)) st1 of
                   Inl e \<Rightarrow> Inl e
                 | Inr st2 \<Rightarrow> loop_J N LMAX L X I (J + 1) st2))
      else Inr st)"
  by pat_completeness auto
termination
  by (relation "measures [
     (\<lambda>x. case x of Inl (N, LMAX, L, X, MIN', st) \<Rightarrow> 3 * nat (L + 1)
         | Inr (Inl (N, LMAX, L, X, I, st)) \<Rightarrow> 3 * nat L + 2
         | Inr (Inr (N, LMAX, L, X, I, J, st)) \<Rightarrow> 3 * nat L + 1),
     (\<lambda>x. case x of Inl (N, LMAX, L, X, MIN', st) \<Rightarrow> 0
         | Inr (Inl (N, LMAX, L, X, I, st)) \<Rightarrow> size_t_of_int (min (N - L) (N - 1)) - I
         | Inr (Inr (N, LMAX, L, X, I, J, st)) \<Rightarrow> size_t_of_int N - J)]")
    (simp_all add: nat_add_distrib)

declare inner_permutation_loop.simps [simp del] loop_I.simps [simp del] loop_J.simps [simp del]

text \<open>
  \<^verbatim>\<open>std::vector<index_permutation_list<L>>::max_size()\<close>, which the repository takes
  from the C++ library: in libstdc++ on a 64-bit platform it is \<^verbatim>\<open>PTRDIFF_MAX\<close> divided
  by the size of an element, and the constructor \<^verbatim>\<open>std::vector(n)\<close> throws
  \<^verbatim>\<open>std::length_error\<close> for a larger \<^verbatim>\<open>n\<close>. An \<^verbatim>\<open>index_permutation\<close> takes 16 bytes,
  an array of \<^verbatim>\<open>L\<close> of them \<open>16 * L\<close> bytes, and the empty array one byte.
\<close>

definition vector_max_size :: "int \<Rightarrow> nat" where
  "vector_max_size L = (2 ^ 63 - 1) div (if L = 0 then 1 else 16 * nat L)"

text \<open>The value-initialised \<^verbatim>\<open>index_permutation\<close> of a fresh vector element.\<close>

definition zero_pair :: index_permutation where
  "zero_pair = \<lparr>first = 0, second = 0\<rparr>"

text \<open>
  \<^verbatim>\<open>get_all_unique_permutations<N,L>()\<close>. \<^verbatim>\<open>OUT\<close> is constructed with
  \<^verbatim>\<open>num_unique_permutations(N,L)\<close> value-initialised elements, each an array of \<^verbatim>\<open>L\<close>
  pairs, unless that number exceeds \<^verbatim>\<open>max_size()\<close>: then the constructor throws and
  nothing else is run. For \<^verbatim>\<open>L == 0\<close> the source assigns \<^verbatim>\<open>OUT[0][0] = {0,0}\<close>. Otherwise it runs
  the loop nest of \<^verbatim>\<open>inner_permutation_loop\<close> at \<^verbatim>\<open>X = 0\<close>, \<^verbatim>\<open>MIN = 0\<close> and level
  \<^verbatim>\<open>L\<close> (the source repeats the two loops there with \<^verbatim>\<open>TMP[0]\<close> and
  \<^verbatim>\<open>inner_permutation_loop<N,L>(L-1,0+1,I+1,TMP,ELEMENT)\<close>, which is \<open>loop_I N L L 0 0\<close>).
  The local \<^verbatim>\<open>TMP\<close> is declared without an initialiser: \<open>TMP0\<close> stands for whatever
  it holds at first.
\<close>

definition get_all_unique_permutations ::
    "int \<Rightarrow> int \<Rightarrow> index_permutation list \<Rightarrow> error + index_permutation list list" where
  "get_all_unique_permutations N L TMP0 =
     (case num_unique_permutations (word_of_int N) (word_of_int L) of
        None \<Rightarrow> Inl Diverges
      | Some n \<Rightarrow>
          if vector_max_size L < unat n then Inl LengthError
          else
          (let OUT0 = replicate (unat n) (replicate (nat L) zero_pair) in
           if L = 0
           then (if 0 < length OUT0 \<and> 0 < length (OUT0 ! 0)
                 then Inr (OUT0[0 := (OUT0 ! 0)[0 := \<lparr>first = 0, second = 0\<rparr>]])
                 else Inl OutOfBounds)
           else (case loop_I N L L 0 0 \<lparr>TMP = TMP0, OUT = OUT0, ELEMENT = 0\<rparr> of
                   Inl e \<Rightarrow> Inl e
                 | Inr st \<Rightarrow> Inr (OUT st))))"

section \<open>Notions used in the statements and proofs\<close>

text \<open>The swap of one index pair on a list, and index pairs within the bounds of a list.\<close>

definition swap_pair :: "index_permutation \<Rightarrow> 'a list \<Rightarrow> 'a list" where
  "swap_pair p ys = ys[first p := ys ! second p, second p := ys ! first p]"

definition in_bounds :: "nat \<Rightarrow> index_permutation list \<Rightarrow> bool" where
  "in_bounds n PLIST = (\<forall>p \<in> set PLIST. first p < n \<and> second p < n)"

text \<open>
  The transposition sequences the counter and the enumerator are about: \<open>l\<close> index pairs
  over \<open>n\<close> elements, each with \<open>first < second < n\<close>, the lower indices strictly
  increasing along the sequence, and the lower index of the first pair at least \<open>m\<close>.
\<close>

definition unique_sequences :: "nat \<Rightarrow> nat \<Rightarrow> nat \<Rightarrow> index_permutation list set" where
  "unique_sequences n l m =
     {s. length s = l \<and> (\<forall>p \<in> set s. first p < second p \<and> second p < n)
       \<and> sorted_wrt (<) (map first s) \<and> (s \<noteq> [] \<longrightarrow> m \<le> first (hd s))}"

text \<open>The same condition, checked pair by pair.\<close>

fun monotonic_from :: "nat \<Rightarrow> nat \<Rightarrow> index_permutation list \<Rightarrow> bool" where
  "monotonic_from n m [] = True"
| "monotonic_from n m (p # s) =
     (m \<le> first p \<and> first p < second p \<and> second p < n \<and> monotonic_from n (Suc (first p)) s)"

text \<open>
  The order in which \<open>inner_permutation_loop\<close> completes sequences, as a list: the
  suffixes it appends to a partial sequence when \<open>l\<close> levels remain and the lower
  bound is \<open>m\<close>. \<open>from_I\<close> and \<open>from_J\<close> are the parts produced by the rest of the two
  loops.
\<close>

fun sequences :: "int \<Rightarrow> nat \<Rightarrow> nat \<Rightarrow> index_permutation list list" where
  "sequences N 0 m = [[]]"
| "sequences N (Suc l) m =
     concat (map (\<lambda>I. concat (map (\<lambda>J. map ((#) \<lparr>first = I, second = J\<rparr>) (sequences N l (Suc I)))
                                [Suc I..<size_t_of_int N]))
                 [m..<size_t_of_int (min (N - int (Suc l)) (N - 1))])"

definition from_J :: "int \<Rightarrow> nat \<Rightarrow> nat \<Rightarrow> nat \<Rightarrow> index_permutation list list" where
  "from_J N l I J =
     concat (map (\<lambda>J'. map ((#) \<lparr>first = I, second = J'\<rparr>) (sequences N l (Suc I)))
       [J..<size_t_of_int N])"

definition from_I :: "int \<Rightarrow> nat \<Rightarrow> nat \<Rightarrow> index_permutation list list" where
  "from_I N l I =
     concat (map (\<lambda>I'. from_J N l I' (Suc I')) [I..<size_t_of_int (min (N - int (Suc l)) (N - 1))])"

text \<open>
  \<open>writes st X ss res\<close>: started in state \<open>st\<close> at depth \<open>X\<close>, a run with outcome
  \<open>res\<close> has stored, from \<open>ELEMENT st\<close> on, the first \<open>X\<close> pairs of \<open>TMP st\<close> followed
  by each suffix of \<open>ss\<close> in turn, when \<open>OUT\<close> has room for them all, and has ended in
  \<open>OutOfBounds\<close> when it has not.
\<close>

definition writes ::
    "perm_state \<Rightarrow> nat \<Rightarrow> index_permutation list list \<Rightarrow> error + perm_state \<Rightarrow> bool" where
  "writes st X ss res \<longleftrightarrow>
     (if ELEMENT st + length ss \<le> length (OUT st)
      then \<exists>st'. res = Inr st'
        \<and> OUT st' = take (ELEMENT st) (OUT st) @ map ((@) (take X (TMP st))) ss
            @ drop (ELEMENT st + length ss) (OUT st)
        \<and> ELEMENT st' = ELEMENT st + length ss
        \<and> length (TMP st') = length (TMP st)
        \<and> take X (TMP st') = take X (TMP st)
      else res = Inl OutOfBounds)"

text \<open>What holds of the arguments at every call made by \<open>get_all_unique_permutations\<close>.\<close>

definition refine_pre :: "int \<Rightarrow> int \<Rightarrow> int \<Rightarrow> int \<Rightarrow> perm_state \<Rightarrow> bool" where
  "refine_pre N LMAX L X st \<longleftrightarrow>
     0 \<le> N \<and> N < 2 ^ 31 \<and> LMAX < 2 ^ 31 \<and> 0 \<le> X \<and> X + L = LMAX
     \<and> length (TMP st) = nat LMAX \<and> ELEMENT st \<le> length (OUT st)"

section \<open>Properties of the counter\<close>

lemma total_loop_stop: "\<not> I \<le> N - 2 \<Longrightarrow> total_loop f N I tot = Some tot"
  by (subst total_loop.simps) simp

lemma total_loop_step:
  "I \<le> N - 2 \<Longrightarrow> f I = Some r \<Longrightarrow>
   total_loop f N I tot = total_loop f N (I + 1) (tot + (N - I - 1) * r)"
  by (subst total_loop.simps) simp

text \<open>
  C9. For every \<open>N \<ge> 1\<close>, \<open>num_unique_permutations N 0\<close> is 1, and
  \<open>num_unique_permutations N L\<close> is 0 whenever \<open>L > N - 1\<close>.
\<close>

theorem num_unique_permutations_edges:
  fixes N L :: size_t
  assumes "1 \<le> N"
  shows "num_unique_permutations N 0 = Some 1
    \<and> (N - 1 < L \<longrightarrow> num_unique_permutations N L = Some 0)"
proof -
  have "N - 1 < L \<Longrightarrow> L \<noteq> 0"
    by (cases "L = 0") simp_all
  then show ?thesis
    by (auto simp: num_unique_permutations_def)
qed

theorem num_unique_permutations_edges_witness:
  "(1 :: size_t) \<le> 4 \<and> num_unique_permutations 4 0 = Some 1
    \<and> (4 - 1 < (7 :: size_t) \<and> num_unique_permutations 4 7 = Some 0)"
  using num_unique_permutations_edges [of 4 7] by simp

text \<open>
  C8. The claim reads: with \<open>N = 0\<close> every counting function returns 0, for every \<open>L\<close>
  and \<open>MIN\<close>. The permutation counters test \<open>L = 0\<close> before anything else and return
  1 there, also for \<open>N = 0\<close>; and in \<open>num_unique_pairs_ge_min\<close> the unsigned difference
  \<open>N - MIN\<close> wraps around, so that the guard lets \<open>N = 0\<close>, \<open>MIN = 1\<close> through.
\<close>

theorem counter_zero_size_counterexample:
  "num_unique_permutations 0 0 = Some 1 \<and> num_unique_permutations 0 0 \<noteq> Some 0
    \<and> num_unique_pairs_ge_min 0 1 = 1"
proof -
  have m1: "(0 :: size_t) - 1 = 18446744073709551615" by simp
  have m2: "(0 :: size_t) - 2 = 18446744073709551614" by simp
  have "num_unique_pairs_ge_min 0 1 = 1"
    unfolding num_unique_pairs_ge_min_def m1 m2 by simp
  then show ?thesis
    by (simp add: num_unique_permutations_def)
qed

text \<open>
  C8, as amended. With \<open>N = 0\<close>: \<open>num_unique_pairs\<close> returns 0;
  \<open>num_unique_pairs_ge_min\<close> returns 0 for \<open>MIN = 0\<close>; both permutation counters return
  1 for \<open>L = 0\<close>, whatever \<open>MIN\<close> is; and for \<open>L \<ge> 1\<close> \<open>num_unique_permutations_ge_min\<close>
  returns 0 when \<open>MIN > N - 2\<close>, which in the unsigned domain is \<open>MIN = 2 ^ 64 - 1\<close>.
\<close>

theorem counter_zero_size:
  "num_unique_pairs 0 = 0
    \<and> num_unique_pairs_ge_min 0 0 = 0
    \<and> num_unique_permutations 0 0 = Some 1
    \<and> num_unique_permutations_ge_min 0 0 MIN' = Some 1
    \<and> (L \<noteq> 0 \<longrightarrow> num_unique_permutations_ge_min 0 L (- 1) = Some 0)"
  by (simp add: num_unique_pairs_def num_unique_pairs_ge_min_def num_unique_permutations_def
      num_unique_permutations_ge_min.simps)

theorem counter_zero_size_witness:
  "num_unique_pairs 0 = 0
    \<and> num_unique_pairs_ge_min 0 0 = 0
    \<and> num_unique_permutations 0 0 = Some 1
    \<and> num_unique_permutations_ge_min 0 0 5 = Some 1
    \<and> ((3 :: size_t) \<noteq> 0 \<and> num_unique_permutations_ge_min 0 3 (- 1) = Some 0)"
  using counter_zero_size [of 5 3] by simp

section \<open>Properties of the executor\<close>

lemma length_swap_pair [simp]: "length (swap_pair p ys) = length ys"
  by (simp add: swap_pair_def)

lemma length_fold_swap_pair [simp]: "length (fold swap_pair PLIST ys) = length ys"
  by (induction PLIST arbitrary: ys) simp_all

lemma exec_loop_in_bounds:
  "in_bounds (length (exec_OUT fr)) PLIST \<Longrightarrow>
   exec_loop PLIST fr = Inr (fr\<lparr>exec_OUT := fold swap_pair PLIST (exec_OUT fr)\<rparr>)"
proof (induction PLIST arbitrary: fr)
  case Nil
  show ?case by simp
next
  case (Cons p PLIST)
  from Cons.prems have p: "first p < length (exec_OUT fr)" "second p < length (exec_OUT fr)"
    and rest: "in_bounds (length (exec_OUT fr)) PLIST"
    by (simp_all add: in_bounds_def)
  have swap: "iter_swap (exec_OUT fr) (first p) (second p) = Inr (swap_pair p (exec_OUT fr))"
    using p by (simp add: iter_swap_def swap_pair_def)
  have "in_bounds (length (exec_OUT (fr\<lparr>exec_OUT := swap_pair p (exec_OUT fr)\<rparr>))) PLIST"
    using rest by simp
  from Cons.IH [OF this] swap show ?case
    by simp
qed



text \<open>
  C3. For every input collection \<open>xs\<close> and every sequence of index pairs within its
  bounds, \<open>execute_permutations\<close> returns the collection obtained from a copy of \<open>xs\<close>
  by swapping, for each pair in sequence order (position 0 first), the elements at
  positions \<open>first\<close> and \<open>second\<close>; the loop leaves the caller's \<open>IN\<close> as it was.
\<close>

theorem execute_permutations_swaps:
  assumes "in_bounds (length xs) PLIST"
  shows "execute_permutations PLIST xs
      = Inr (fold (\<lambda>p ys. ys[first p := ys ! second p, second p := ys ! first p]) PLIST xs)
    \<and> exec_loop PLIST \<lparr>exec_IN = xs, exec_OUT = xs\<rparr>
      = Inr \<lparr>exec_IN = xs,
             exec_OUT = fold (\<lambda>p ys. ys[first p := ys ! second p, second p := ys ! first p])
               PLIST xs\<rparr>"
proof -
  have eq: "(\<lambda>p ys. ys[first p := ys ! second p, second p := ys ! first p])
      = (swap_pair :: index_permutation \<Rightarrow> 'a list \<Rightarrow> 'a list)"
    by (intro ext) (simp add: swap_pair_def)
  from assms have "in_bounds (length (exec_OUT \<lparr>exec_IN = xs, exec_OUT = xs\<rparr>)) PLIST"
    by simp
  from exec_loop_in_bounds [OF this] show ?thesis
    by (simp add: execute_permutations_def eq)
qed

theorem execute_permutations_swaps_witness:
  "in_bounds (length ''abcd'')
      [\<lparr>first = 0, second = 2\<rparr>, \<lparr>first = 2, second = 3\<rparr>, \<lparr>first = 0, second = 0\<rparr>]
    \<and> execute_permutations
        [\<lparr>first = 0, second = 2\<rparr>, \<lparr>first = 2, second = 3\<rparr>, \<lparr>first = 0, second = 0\<rparr>] ''abcd''
      = Inr ''cbda''"
  using execute_permutations_swaps [of "''abcd''"
      "[\<lparr>first = 0, second = 2\<rparr>, \<lparr>first = 2, second = 3\<rparr>, \<lparr>first = 0, second = 0\<rparr>]"]
  by (simp add: in_bounds_def)




section \<open>The traversal order as a list\<close>

lemma sequences_Suc: "sequences N (Suc l) m = from_I N l m"
  by (simp add: from_I_def from_J_def)

declare sequences.simps(2) [simp del]

lemma from_I_stop: "\<not> I < size_t_of_int (min (N - int (Suc l)) (N - 1)) \<Longrightarrow> from_I N l I = []"
  by (simp add: from_I_def)

lemma from_I_step:
  "I < size_t_of_int (min (N - int (Suc l)) (N - 1)) \<Longrightarrow>
   from_I N l I = from_J N l I (Suc I) @ from_I N l (Suc I)"
  by (simp add: from_I_def upt_conv_Cons)

lemma from_J_stop: "\<not> J < size_t_of_int N \<Longrightarrow> from_J N l I J = []"
  by (simp add: from_J_def)

lemma from_J_step:
  "J < size_t_of_int N \<Longrightarrow>
   from_J N l I J = map ((#) \<lparr>first = I, second = J\<rparr>) (sequences N l (Suc I)) @ from_J N l I (Suc J)"
  by (simp add: from_J_def upt_conv_Cons)

lemma writes_nil: "ELEMENT st \<le> length (OUT st) \<Longrightarrow> writes st X [] (Inr st)"
  by (simp add: writes_def)

lemma writes_seq:
  assumes 1: "writes st X ss1 r1"
    and 2: "\<And>st1. r1 = Inr st1 \<Longrightarrow> writes st1 X ss2 (k st1)"
  shows "writes st X (ss1 @ ss2) (case r1 of Inl e \<Rightarrow> Inl e | Inr st1 \<Rightarrow> k st1)"
proof (cases "ELEMENT st + length ss1 \<le> length (OUT st)")
  case False
  with 1 have "r1 = Inl OutOfBounds" by (simp add: writes_def)
  with False show ?thesis by (simp add: writes_def)
next
  case fits1: True
  with 1 obtain st1 where r1: "r1 = Inr st1"
    and out1: "OUT st1 = take (ELEMENT st) (OUT st) @ map ((@) (take X (TMP st))) ss1
            @ drop (ELEMENT st + length ss1) (OUT st)"
    and el1: "ELEMENT st1 = ELEMENT st + length ss1"
    and len1: "length (TMP st1) = length (TMP st)"
    and pre1: "take X (TMP st1) = take X (TMP st)"
    by (auto simp: writes_def)
  from out1 fits1 have lo1: "length (OUT st1) = length (OUT st)" by simp
  from 2 [OF r1] have w2: "writes st1 X ss2 (k st1)" .
  show ?thesis
  proof (cases "ELEMENT st1 + length ss2 \<le> length (OUT st1)")
    case False
    with w2 have "k st1 = Inl OutOfBounds" by (simp add: writes_def)
    with False r1 el1 lo1 show ?thesis by (simp add: writes_def)
  next
    case fits2: True
    with w2 obtain st2 where r2: "k st1 = Inr st2"
      and out2: "OUT st2 = take (ELEMENT st1) (OUT st1) @ map ((@) (take X (TMP st1))) ss2
            @ drop (ELEMENT st1 + length ss2) (OUT st1)"
      and el2: "ELEMENT st2 = ELEMENT st1 + length ss2"
      and len2: "length (TMP st2) = length (TMP st1)"
      and pre2: "take X (TMP st2) = take X (TMP st1)"
      by (auto simp: writes_def)
    have t: "take (ELEMENT st1) (OUT st1)
        = take (ELEMENT st) (OUT st) @ map ((@) (take X (TMP st))) ss1"
      using fits1 by (simp add: out1 el1)
    have d: "drop (ELEMENT st1 + length ss2) (OUT st1)
        = drop (ELEMENT st + length (ss1 @ ss2)) (OUT st)"
      using fits1 by (simp add: out1 el1 add.commute add.left_commute)
    from fits2 el1 lo1 have fits: "ELEMENT st + length (ss1 @ ss2) \<le> length (OUT st)"
      by simp
    have "OUT st2 = take (ELEMENT st) (OUT st) @ map ((@) (take X (TMP st))) (ss1 @ ss2)
            @ drop (ELEMENT st + length (ss1 @ ss2)) (OUT st)"
      by (simp add: out2 t d pre1)
    moreover have "ELEMENT st2 = ELEMENT st + length (ss1 @ ss2)"
      by (simp add: el2 el1)
    ultimately show ?thesis
      using fits r1 r2 len1 len2 pre1 pre2 unfolding writes_def by simp
  qed
qed

lemma writes_copy:
  assumes "X = length (TMP st)" "ELEMENT st \<le> length (OUT st)"
  shows "writes st X [[]] (copy_TMP st)"
  using assms by (auto simp: writes_def copy_TMP_def upd_conv_take_nth_drop)

lemma writes_assign:
  assumes X: "X < length (TMP st)"
    and w: "writes (st\<lparr>TMP := (TMP st)[X := p]\<rparr>) (Suc X) ss r"
  shows "writes st X (map ((#) p) ss) r"
proof -
  let ?st1 = "st\<lparr>TMP := (TMP st)[X := p]\<rparr>"
  have pre: "take (Suc X) (TMP ?st1) = take X (TMP st) @ [p]"
    using X by (simp add: take_Suc_conv_app_nth)
  have m: "map ((@) (take (Suc X) (TMP ?st1))) ss = map ((@) (take X (TMP st))) (map ((#) p) ss)"
    using pre by simp
  show ?thesis
  proof (cases "ELEMENT st + length ss \<le> length (OUT st)")
    case False
    with w show ?thesis by (simp add: writes_def)
  next
    case True
    with w obtain st' where r: "r = Inr st'"
      and out: "OUT st' = take (ELEMENT st) (OUT st) @ map ((@) (take (Suc X) (TMP ?st1))) ss
            @ drop (ELEMENT st + length ss) (OUT st)"
      and el: "ELEMENT st' = ELEMENT st + length ss"
      and len: "length (TMP st') = length (TMP st)"
      and pre': "take (Suc X) (TMP st') = take (Suc X) (TMP ?st1)"
      by (auto simp: writes_def)
    have "take X (take (Suc X) (TMP st')) = take X (take (Suc X) (TMP ?st1))"
      by (simp only: pre')
    then have "take X (TMP st') = take X (TMP st)"
      by (simp add: min_def)
    with True r out el len m show ?thesis
      unfolding writes_def by simp
  qed
qed

section \<open>The enumerator writes the traversal order\<close>

lemma size_t_of_int_nat: "0 \<le> i \<Longrightarrow> i < 2 ^ 64 \<Longrightarrow> size_t_of_int i = nat i"
  by (simp add: size_t_of_int_def)

lemma int_of_size_t_small: "n < 2 ^ 31 \<Longrightarrow> int_of_size_t n = int n"
  by (simp add: int_of_size_t_def Let_def)

lemma refine_pre_writes:
  "refine_pre N LMAX L X st \<Longrightarrow> writes st X' ss (Inr st') \<Longrightarrow> refine_pre N LMAX L X st'"
  by (auto simp: refine_pre_def writes_def split: if_splits)

lemma inner_permutation_loop_writes:
  shows "refine_pre N LMAX L X st \<Longrightarrow> 0 \<le> L \<Longrightarrow> 0 \<le> MIN' \<Longrightarrow> MIN' < 2 ^ 31 \<Longrightarrow>
      writes st (nat X) (sequences N (nat L) (nat MIN')) (inner_permutation_loop N LMAX L X MIN' st)"
    and "refine_pre N LMAX L X st \<Longrightarrow> 1 \<le> L \<Longrightarrow>
      writes st (nat X) (from_I N (nat L - 1) I) (loop_I N LMAX L X I st)"
    and "refine_pre N LMAX L X st \<Longrightarrow> 1 \<le> L \<Longrightarrow> I < J \<Longrightarrow>
      writes st (nat X) (from_J N (nat L - 1) I J) (loop_J N LMAX L X I J st)"
proof (induction N LMAX L X MIN' st and N LMAX L X I st and N LMAX L X I J st
    rule: inner_permutation_loop_loop_I_loop_J.induct)
  case (1 N LMAX L X MIN' st)
  note pre = \<open>refine_pre N LMAX L X st\<close>
  show ?case
  proof (cases "X > LMAX - 1 \<or> L < 0")
    case True
    with pre \<open>0 \<le> L\<close> have L: "L = 0" and X: "nat X = length (TMP st)"
      by (auto simp: refine_pre_def)
    from pre have "ELEMENT st \<le> length (OUT st)" by (simp add: refine_pre_def)
    from writes_copy [OF X this] True L show ?thesis
      by (simp add: inner_permutation_loop.simps)
  next
    case False
    with pre have L: "1 \<le> L" by (auto simp: refine_pre_def)
    then obtain l where l: "nat L = Suc l" by (cases "nat L") auto
    have "writes st (nat X) (from_I N (nat L - 1) (size_t_of_int MIN')) (loop_I N LMAX L X (size_t_of_int MIN') st)"
      using "1.IH" [OF False pre L] .
    moreover have "size_t_of_int MIN' = nat MIN'"
      using \<open>0 \<le> MIN'\<close> \<open>MIN' < 2 ^ 31\<close> by (simp add: size_t_of_int_nat)
    ultimately show ?thesis
      using False l by (simp add: inner_permutation_loop.simps sequences_Suc)
  qed
next
  case (2 N LMAX L X I st)
  note pre = \<open>refine_pre N LMAX L X st\<close> and L = \<open>1 \<le> L\<close>
  from L have SL: "int (Suc (nat L - 1)) = L" by simp
  show ?case
  proof (cases "I < size_t_of_int (min (N - L) (N - 1))")
    case False
    then have "from_I N (nat L - 1) I = []"
      using False from_I_stop [of I N "nat L - 1"] by (simp only: SL)
    moreover from pre have "ELEMENT st \<le> length (OUT st)" by (simp add: refine_pre_def)
    ultimately show ?thesis
      using False by (simp add: loop_I.simps writes_nil)
  next
    case True
    then have step: "from_I N (nat L - 1) I = from_J N (nat L - 1) I (Suc I) @ from_I N (nat L - 1) (Suc I)"
      using True from_I_step [of I N "nat L - 1"] by (simp only: SL)
    have wJ: "writes st (nat X) (from_J N (nat L - 1) I (Suc I)) (loop_J N LMAX L X I (I + 1) st)"
      using "2.IH"(1) [OF True pre L] by simp
    have wI: "writes st' (nat X) (from_I N (nat L - 1) (Suc I)) (loop_I N LMAX L X (I + 1) st')"
      if "loop_J N LMAX L X I (I + 1) st = Inr st'" for st'
    proof -
      from wJ that have "refine_pre N LMAX L X st'"
        using refine_pre_writes [OF pre] by simp
      from "2.IH"(2) [OF True that this L] show ?thesis by simp
    qed
    from writes_seq [OF wJ wI] True step show ?thesis
      by (simp add: loop_I.simps)
  qed
next
  case (3 N LMAX L X I J st)
  note pre = \<open>refine_pre N LMAX L X st\<close> and L = \<open>1 \<le> L\<close> and IJ = \<open>I < J\<close>
  show ?case
  proof (cases "J < size_t_of_int N")
    case False
    then have "from_J N (nat L - 1) I J = []"
      by (rule from_J_stop)
    moreover from pre have "ELEMENT st \<le> length (OUT st)" by (simp add: refine_pre_def)
    ultimately show ?thesis
      using False by (simp add: loop_J.simps writes_nil)
  next
    case True
    then have step: "from_J N (nat L - 1) I J
        = map ((#) \<lparr>first = I, second = J\<rparr>) (sequences N (nat L - 1) (Suc I)) @ from_J N (nat L - 1) I (Suc J)"
      by (rule from_J_step)
    from pre have N: "0 \<le> N" "N < 2 ^ 31" by (simp_all add: refine_pre_def)
    then have "size_t_of_int N = nat N" by (simp add: size_t_of_int_nat)
    with True IJ N have I31: "I + 1 < 2 ^ 31" by simp
    then have MIN: "int_of_size_t (I + 1) = int (I + 1)"
      by (rule int_of_size_t_small)
    from pre L have X: "size_t_of_int X = nat X" "nat X < length (TMP st)"
      by (simp_all add: refine_pre_def size_t_of_int_nat)
    let ?p = "\<lparr>first = I, second = J\<rparr>"
    let ?st1 = "st\<lparr>TMP := (TMP st)[nat X := ?p]\<rparr>"
    have asg: "assign_TMP X ?p st = Inr ?st1"
      using X by (simp add: assign_TMP_def)
    have pre1: "refine_pre N LMAX (L - 1) (X + 1) ?st1"
      using pre by (simp add: refine_pre_def)
    have nX: "nat (X + 1) = Suc (nat X)"
      using pre by (simp add: refine_pre_def nat_add_distrib)
    have nL: "nat (L - 1) = nat L - 1" by simp
    have nMIN: "nat (int_of_size_t (I + 1)) = Suc I" using MIN by simp
    have "writes ?st1 (nat (X + 1)) (sequences N (nat (L - 1)) (nat (int_of_size_t (I + 1))))
        (inner_permutation_loop N LMAX (L - 1) (X + 1) (int_of_size_t (I + 1)) ?st1)"
      using "3.IH"(1) [OF True asg pre1] L I31 MIN by simp
    then have "writes ?st1 (Suc (nat X)) (sequences N (nat L - 1) (Suc I))
        (inner_permutation_loop N LMAX (L - 1) (X + 1) (int_of_size_t (I + 1)) ?st1)"
      by (simp only: nX nL nMIN)
    from writes_assign [OF X(2) this]
    have w1: "writes st (nat X) (map ((#) ?p) (sequences N (nat L - 1) (Suc I)))
        (inner_permutation_loop N LMAX (L - 1) (X + 1) (int_of_size_t (I + 1)) ?st1)" .
    have w2: "writes st2 (nat X) (from_J N (nat L - 1) I (Suc J)) (loop_J N LMAX L X I (J + 1) st2)"
      if "inner_permutation_loop N LMAX (L - 1) (X + 1) (int_of_size_t (I + 1)) ?st1 = Inr st2" for st2
    proof -
      from w1 that have "refine_pre N LMAX L X st2"
        using refine_pre_writes [OF pre] by simp
      from "3.IH"(2) [OF True asg that this L] IJ show ?thesis by simp
    qed
    from writes_seq [OF w1 w2] True step asg show ?thesis
      by (simp add: loop_J.simps)
  qed
qed

section \<open>The sequences of the traversal\<close>

lemma monotonic_from_room: "monotonic_from n m s \<Longrightarrow> s \<noteq> [] \<Longrightarrow> m + length s < n"
proof (induction s arbitrary: m)
  case Nil
  then show ?case by simp
next
  case (Cons p s)
  show ?case
  proof (cases "s = []")
    case True
    with Cons.prems show ?thesis by simp
  next
    case False
    from Cons.prems have "monotonic_from n (Suc (first p)) s" by simp
    from Cons.IH [OF this False] Cons.prems show ?thesis by simp
  qed
qed

lemma sequences_sound:
  assumes N: "0 \<le> N" "N < 2 ^ 64"
  shows "s \<in> set (sequences N l m) \<Longrightarrow> length s = l \<and> monotonic_from (nat N) m s"
proof (induction l arbitrary: m s)
  case 0
  then show ?case by simp
next
  case (Suc l)
  from Suc.prems obtain I J s' where s: "s = \<lparr>first = I, second = J\<rparr> # s'"
    and I: "m \<le> I" and J: "I < J" "J < size_t_of_int N"
    and s': "s' \<in> set (sequences N l (Suc I))"
    by (auto simp: sequences.simps(2))
  from Suc.IH [OF s'] s I J N show ?case
    by (simp add: size_t_of_int_nat)
qed

lemma in_sequences_Suc:
  assumes "m \<le> I" "I < size_t_of_int (min (N - int (Suc l)) (N - 1))" "I < J" "J < size_t_of_int N"
    and "s \<in> set (sequences N l (Suc I))"
  shows "\<lparr>first = I, second = J\<rparr> # s \<in> set (sequences N (Suc l) m)"
proof -
  from assms(3-5) have "\<lparr>first = I, second = J\<rparr> # s \<in> set (from_J N l I (Suc I))"
    by (force simp: from_J_def)
  with assms(1,2) show ?thesis
    by (force simp: sequences_Suc from_I_def)
qed

lemma sequences_complete:
  assumes N: "0 \<le> N" "N < 2 ^ 64"
  shows "monotonic_from (nat N) m s \<Longrightarrow> s \<in> set (sequences N (length s) m)"
proof (induction s arbitrary: m)
  case Nil
  show ?case by simp
next
  case (Cons p s)
  from Cons.prems have p: "m \<le> first p" "first p < second p" "second p < nat N"
    and s: "monotonic_from (nat N) (Suc (first p)) s"
    by simp_all
  from Cons.prems have "monotonic_from (nat N) (first p) (p # s)" by simp
  from monotonic_from_room [OF this] have "first p + Suc (length s) < nat N" by simp
  with p have "int (first p) < N - int (Suc (length s))" by linarith
  moreover have "N - int (Suc (length s)) \<le> N - 1" by simp
  ultimately have b: "first p < size_t_of_int (min (N - int (Suc (length s))) (N - 1))"
    using N by (simp add: size_t_of_int_nat min_def)
  have pp: "\<lparr>first = first p, second = second p\<rparr> = p" by simp
  have "\<lparr>first = first p, second = second p\<rparr> # s \<in> set (sequences N (Suc (length s)) m)"
    using p b N Cons.IH [OF s] by (intro in_sequences_Suc) (simp_all add: size_t_of_int_nat)
  then show ?case by (simp add: pp)
qed

lemma set_sequences:
  assumes "0 \<le> N" "N < 2 ^ 64"
  shows "set (sequences N l m) = {s. length s = l \<and> monotonic_from (nat N) m s}"
  using sequences_sound [OF assms] sequences_complete [OF assms] by blast

lemma distinct_concat_map:
  assumes "distinct xs"
    and "\<And>x. x \<in> set xs \<Longrightarrow> distinct (f x)"
    and "\<And>x y. x \<in> set xs \<Longrightarrow> y \<in> set xs \<Longrightarrow> x \<noteq> y \<Longrightarrow> set (f x) \<inter> set (f y) = {}"
  shows "distinct (concat (map f xs))"
  using assms
proof (induction xs)
  case Nil
  show ?case by simp
next
  case (Cons x xs)
  have "distinct (concat (map f xs))"
    using Cons.prems by (intro Cons.IH) auto
  moreover have "distinct (f x)" using Cons.prems(2) by simp
  moreover have "set (f x) \<inter> set (f y) = {}" if "y \<in> set xs" for y
  proof -
    from that Cons.prems(1) have "x \<noteq> y" by auto
    with that show ?thesis by (intro Cons.prems(3)) simp_all
  qed
  ultimately show ?case by auto
qed

lemma distinct_sequences: "distinct (sequences N l m)"
proof (induction l arbitrary: m)
  case 0
  show ?case by simp
next
  case (Suc l)
  define row where "row = (\<lambda>I J. map ((#) \<lparr>first = I, second = J\<rparr>) (sequences N l (Suc I)))"
  define rows where "rows = (\<lambda>I. concat (map (row I) [Suc I..<size_t_of_int N]))"
  have hd_row: "first (hd s) = I \<and> second (hd s) = J" if "s \<in> set (row I J)" for s I J
    using that by (auto simp: row_def)
  have "distinct (row I J)" for I J
    using Suc.IH by (simp add: row_def distinct_map)
  moreover have "set (row I J) \<inter> set (row I J') = {}" if "J \<noteq> J'" for I J J'
  proof (rule ccontr)
    assume "set (row I J) \<inter> set (row I J') \<noteq> {}"
    then obtain s where "s \<in> set (row I J)" "s \<in> set (row I J')" by blast
    from hd_row [OF this(1)] hd_row [OF this(2)] that show False by simp
  qed
  ultimately have d: "distinct (rows I)" for I
    unfolding rows_def by (intro distinct_concat_map) simp_all
  have hd_rows: "first (hd s) = I" if "s \<in> set (rows I)" for s I
    using that hd_row by (auto simp: rows_def)
  have "set (rows I) \<inter> set (rows I') = {}" if "I \<noteq> I'" for I I'
  proof (rule ccontr)
    assume "set (rows I) \<inter> set (rows I') \<noteq> {}"
    then obtain s where "s \<in> set (rows I)" "s \<in> set (rows I')" by blast
    from hd_rows [OF this(1)] hd_rows [OF this(2)] that show False by simp
  qed
  with d have "distinct (concat (map rows [m..<size_t_of_int (min (N - int (Suc l)) (N - 1))]))"
    by (intro distinct_concat_map) simp_all
  then show ?case
    by (simp add: sequences.simps(2) rows_def row_def)
qed

lemma length_sequences_Suc:
  assumes N: "0 \<le> N" "N < 2 ^ 64"
  shows "length (sequences N (Suc l) m)
    = (\<Sum>i\<leftarrow>[m..<nat N - 1]. (nat N - 1 - i) * length (sequences N l (Suc i)))"
proof -
  let ?g = "\<lambda>i. (nat N - 1 - i) * length (sequences N l (Suc i))"
  let ?b = "size_t_of_int (min (N - int (Suc l)) (N - 1))"
  define rows where "rows = (\<lambda>I. concat (map (\<lambda>J. map ((#) \<lparr>first = I, second = J\<rparr>)
      (sequences N l (Suc I))) [Suc I..<size_t_of_int N]))"
  have row: "length (rows I) = ?g I" for I
    using N by (simp add: rows_def length_concat comp_def sum_list_triv size_t_of_int_nat)
  have "sequences N (Suc l) m = concat (map rows [m..<?b])"
    by (simp add: sequences.simps(2) rows_def)
  then have len: "length (sequences N (Suc l) m) = (\<Sum>i\<leftarrow>[m..<?b]. ?g i)"
    by (simp add: length_concat comp_def row)
  have nz: "i + Suc l < nat N" if "?g i \<noteq> 0" for i
  proof -
    from that have i: "i < nat N - 1" and ne: "sequences N l (Suc i) \<noteq> []" by auto
    then obtain s where "s \<in> set (sequences N l (Suc i))" by (cases "sequences N l (Suc i)") auto
    from sequences_sound [OF N this] have s: "length s = l" "monotonic_from (nat N) (Suc i) s"
      by simp_all
    show ?thesis
    proof (cases "s = []")
      case True
      with s i show ?thesis by simp
    next
      case False
      from monotonic_from_room [OF s(2) False] s(1) show ?thesis by simp
    qed
  qed
  have lt_b: "i < ?b" if "i + Suc l < nat N" for i
  proof -
    from that have "int i < N - int (Suc l)" by linarith
    moreover have "N - int (Suc l) \<le> N - 1" by simp
    ultimately show ?thesis using N by (simp add: size_t_of_int_nat min_def)
  qed
  have "(\<Sum>i\<leftarrow>[m..<?b]. ?g i) = sum ?g (set [m..<?b])"
    by (rule sum_list_distinct_conv_sum_set) simp
  also have "\<dots> = sum ?g (set [m..<nat N - 1])"
  proof (rule sum.mono_neutral_cong)
    fix i assume "i \<in> set [m..<nat N - 1] - set [m..<?b]"
    then have "\<not> i < ?b" by auto
    with lt_b nz show "?g i = 0" by blast
  next
    fix i assume "i \<in> set [m..<?b] - set [m..<nat N - 1]"
    then show "?g i = 0" by auto
  qed simp_all
  also have "\<dots> = (\<Sum>i\<leftarrow>[m..<nat N - 1]. ?g i)"
    by (rule sum_list_distinct_conv_sum_set [symmetric]) simp
  finally show ?thesis using len by simp
qed

section \<open>The counter counts the traversal\<close>

lemma total_loop_sum:
  fixes N I tot :: size_t
  assumes N: "2 \<le> N" and f: "\<And>i. f i = Some (of_nat (g (unat i)))"
  shows "unat I \<le> unat N - 1 \<Longrightarrow>
    total_loop f N I tot
      = Some (tot + of_nat (\<Sum>i\<leftarrow>[unat I..<unat N - 1]. (unat N - 1 - i) * g i))"
proof (induction "unat N - 1 - unat I" arbitrary: I tot)
  case 0
  from N have N2: "unat (N - 2) = unat N - 2" by (simp add: unat_sub)
  from N have "2 \<le> unat N" by (simp add: word_le_nat_alt)
  with 0 N2 have "\<not> I \<le> N - 2" by (simp add: word_le_nat_alt)
  with 0 show ?case by (simp add: total_loop_stop)
next
  case (Suc k)
  from N have N2: "unat (N - 2) = unat N - 2" by (simp add: unat_sub)
  from N have N': "2 \<le> unat N" by (simp add: word_le_nat_alt)
  from Suc.hyps(2) have lt: "unat I < unat N - 1" by simp
  with N2 N' have le: "I \<le> N - 2" by (simp add: word_le_nat_alt)
  have "unat N < 2 ^ 64" using unsigned_less [of N] by simp
  with lt have "unat I + unat (1 :: size_t) < 2 ^ LENGTH(64)" by simp
  then have I1: "unat (I + 1) = Suc (unat I)" by (simp add: unat_add_lem [THEN iffD1])
  have fac: "N - I - 1 = (of_nat (unat N - 1 - unat I) :: size_t)"
    using lt by (simp add: of_nat_diff)
  have "total_loop f N I tot = total_loop f N (I + 1) (tot + (N - I - 1) * of_nat (g (unat I)))"
    using le f by (rule total_loop_step)
  also have "\<dots> = Some (tot + (N - I - 1) * of_nat (g (unat I))
      + of_nat (\<Sum>i\<leftarrow>[unat (I + 1)..<unat N - 1]. (unat N - 1 - i) * g i))"
    using Suc.hyps(2) lt I1 by (intro Suc.hyps(1)) simp_all
  also have "\<dots> = Some (tot + of_nat (\<Sum>i\<leftarrow>[unat I..<unat N - 1]. (unat N - 1 - i) * g i))"
    using lt by (simp add: I1 fac upt_conv_Cons add.assoc)
  finally show ?case .
qed

lemma num_unique_permutations_ge_min_count:
  fixes N L M :: size_t
  shows "2 \<le> N \<Longrightarrow> num_unique_permutations_ge_min N L M
    = Some (of_nat (length (sequences (uint N) (unat L) (Suc (unat M)))))"
proof (induction N L M rule: num_unique_permutations_ge_min.induct)
  case (1 N L M)
  note N = \<open>2 \<le> N\<close>
  have uN: "0 \<le> uint N" "uint N < 2 ^ 64" "nat (uint N) = unat N"
    using uint_lt2p [of N] by simp_all
  show ?case
  proof (cases "L = 0")
    case True
    then show ?thesis by (simp add: num_unique_permutations_ge_min.simps)
  next
    case L: False
    define l where "l = unat (L - 1)"
    from L have uL: "unat L = Suc l"
      by (simp add: l_def unat_minus_one) (simp add: unat_gt_0)
    note len = length_sequences_Suc [OF uN(1,2), of l, unfolded uN(3)]
    from N have N2: "unat (N - 2) = unat N - 2" by (simp add: unat_sub)
    from N have N': "2 \<le> unat N" by (simp add: word_le_nat_alt)
    show ?thesis
    proof (cases "M > N - 2")
      case True
      then have "unat N - 2 < unat M" using N2 by (simp add: word_less_nat_alt)
      then have "length (sequences (uint N) (Suc l) (Suc (unat M))) = 0"
        by (subst len) simp
      with True L show ?thesis
        by (simp add: num_unique_permutations_ge_min.simps uL)
    next
      case False
      then have M: "unat M \<le> unat N - 2" using N2 by (simp add: word_less_nat_alt)
      have "unat N < 2 ^ 64" using unsigned_less [of N] by simp
      with M N' have "unat M + unat (1 :: size_t) < 2 ^ LENGTH(64)" by simp
      then have M1: "unat (M + 1) = Suc (unat M)" by (simp add: unat_add_lem [THEN iffD1])
      have f: "num_unique_permutations_ge_min N (L - 1) i
          = Some (of_nat (length (sequences (uint N) l (Suc (unat i)))))" for i
        using "1.IH" [of i] L False N by (simp add: l_def)
      have "total_loop (\<lambda>I. num_unique_permutations_ge_min N (L - 1) I) N (M + 1) 0
          = Some (0 + of_nat (\<Sum>i\<leftarrow>[unat (M + 1)..<unat N - 1].
              (unat N - 1 - i) * length (sequences (uint N) l (Suc i))))"
        using M N' f
        by (intro total_loop_sum [where f = "\<lambda>I. num_unique_permutations_ge_min N (L - 1) I"
              and g = "\<lambda>i. length (sequences (uint N) l (Suc i))", OF N]) (simp_all add: M1)
      moreover have "num_unique_permutations_ge_min N L M
          = total_loop (\<lambda>I. num_unique_permutations_ge_min N (L - 1) I) N (M + 1) 0"
        using L False by (subst num_unique_permutations_ge_min.simps) simp
      ultimately show ?thesis
        by (simp add: uL len M1)
    qed
  qed
qed

lemma sequences_no_room:
  assumes "0 \<le> N" "N < 2 ^ 64" "l \<noteq> 0" "nat N \<le> m + l"
  shows "sequences N l m = []"
proof (rule ccontr)
  assume "sequences N l m \<noteq> []"
  then obtain s where "s \<in> set (sequences N l m)" by (cases "sequences N l m") auto
  from sequences_sound [OF assms(1,2) this] have "length s = l" "monotonic_from (nat N) m s"
    by simp_all
  with monotonic_from_room [of "nat N" m s] assms(3,4) show False by auto
qed

lemma num_unique_permutations_count:
  fixes N L :: size_t
  assumes N: "1 \<le> N"
  shows "num_unique_permutations N L = Some (of_nat (length (sequences (uint N) (unat L) 0)))"
proof -
  have uN: "0 \<le> uint N" "uint N < 2 ^ 64" "nat (uint N) = unat N"
    using uint_lt2p [of N] by simp_all
  from N have N1: "unat (N - 1) = unat N - 1" by (simp add: unat_sub)
  show ?thesis
  proof (cases "L = 0")
    case True
    then show ?thesis by (simp add: num_unique_permutations_def)
  next
    case L: False
    define l where "l = unat (L - 1)"
    from L have uL: "unat L = Suc l"
      by (simp add: l_def unat_minus_one) (simp add: unat_gt_0)
    show ?thesis
    proof (cases "L > N - 1")
      case True
      then have "unat N - 1 < unat L" using N1 by (simp add: word_less_nat_alt)
      then have "sequences (uint N) (unat L) 0 = []"
        using uL by (intro sequences_no_room uN(1,2)) (simp_all add: uN(3))
      with True L show ?thesis by (simp add: num_unique_permutations_def)
    next
      case False
      then have "unat L \<le> unat N - 1" using N1 by (simp add: word_less_nat_alt)
      with uL have "2 \<le> unat N" by simp
      then have N2: "2 \<le> N" by (simp add: word_le_nat_alt)
      have f: "num_unique_permutations_ge_min N (L - 1) i
          = Some (of_nat (length (sequences (uint N) l (Suc (unat i)))))" for i
        using num_unique_permutations_ge_min_count [OF N2, of "L - 1" i] by (simp add: l_def)
      have "total_loop (\<lambda>I. num_unique_permutations_ge_min N (L - 1) I) N 0 0
          = Some (0 + of_nat (\<Sum>i\<leftarrow>[unat (0 :: size_t)..<unat N - 1].
              (unat N - 1 - i) * length (sequences (uint N) l (Suc i))))"
        using f
        by (intro total_loop_sum [where f = "\<lambda>I. num_unique_permutations_ge_min N (L - 1) I"
              and g = "\<lambda>i. length (sequences (uint N) l (Suc i))", OF N2]) simp_all
      with L False show ?thesis
        by (simp add: num_unique_permutations_def uL
            length_sequences_Suc [OF uN(1,2), of l, unfolded uN(3)])
    qed
  qed
qed

section \<open>The result of the enumeration\<close>

lemma map_append_Nil: "map ((@) []) xs = xs"
  by (induction xs) simp_all

lemma get_all_unique_permutations_sequences:
  assumes N: "1 \<le> N" "N < 2 ^ 31" and L: "1 \<le> L" "L < 2 ^ 31" and T: "length TMP0 = nat L"
  shows "get_all_unique_permutations N L TMP0
    = (if vector_max_size L < length (sequences N (nat L) 0) mod 2 ^ 64 then Inl LengthError
       else if length (sequences N (nat L) 0) < 2 ^ 64 then Inr (sequences N (nat L) 0)
       else Inl OutOfBounds)"
proof -
  let ?ss = "sequences N (nat L) 0"
  let ?n = "length ?ss"
  let ?Nw = "word_of_int N :: size_t" and ?Lw = "word_of_int L :: size_t"
  from N have uN: "uint ?Nw = N"
    by (simp add: uint_word_of_int take_bit_int_eq_self)
  from L have uL: "unat ?Lw = nat L"
    by (simp add: unat_eq_nat_uint uint_word_of_int take_bit_int_eq_self)
  from N uN have "1 \<le> ?Nw"
    by (simp add: word_le_def)
  from num_unique_permutations_count [OF this, of ?Lw]
  have cnt: "num_unique_permutations ?Nw ?Lw = Some (of_nat ?n)"
    by (simp add: uN uL)
  define A where "A = unat (of_nat ?n :: size_t)"
  have A: "A = ?n mod 2 ^ 64"
    by (simp add: A_def unat_of_nat)
  define st0 where "st0 = \<lparr>TMP = TMP0, OUT = replicate A (replicate (nat L) zero_pair), ELEMENT = 0\<rparr>"
  have "refine_pre N L L 0 st0"
    using N L T by (simp add: refine_pre_def st0_def)
  from inner_permutation_loop_writes(2) [OF this L(1), of 0]
  have "writes st0 0 (from_I N (nat L - 1) 0) (loop_I N L L 0 0 st0)"
    by simp
  moreover from L have "nat L = Suc (nat L - 1)" by simp
  then have "?ss = from_I N (nat L - 1) 0"
    using sequences_Suc [of N "nat L - 1" 0] by simp
  ultimately have w: "writes st0 0 ?ss (loop_I N L L 0 0 st0)"
    by simp
  show ?thesis
  proof (cases "vector_max_size L < A")
    case True
    then have "get_all_unique_permutations N L TMP0 = Inl LengthError"
      by (simp add: get_all_unique_permutations_def cnt A_def)
    with True A show ?thesis by simp
  next
    case fits: False
    then have get: "get_all_unique_permutations N L TMP0
        = (case loop_I N L L 0 0 st0 of Inl e \<Rightarrow> Inl e | Inr st \<Rightarrow> Inr (OUT st))"
      using L by (simp add: get_all_unique_permutations_def cnt st0_def A_def)
    show ?thesis
    proof (cases "?n < 2 ^ 64")
      case True
      then have "A = ?n" by (simp add: A)
      with w obtain st' where "loop_I N L L 0 0 st0 = Inr st'" "OUT st' = ?ss"
        by (auto simp: writes_def st0_def map_append_Nil)
      with True fits A get show ?thesis by simp
    next
      case False
      have "A < 2 ^ 64" by (simp add: A)
      with False have "A < ?n" by simp
      with w have "loop_I N L L 0 0 st0 = Inl OutOfBounds"
        by (simp add: writes_def st0_def)
      with False fits A get show ?thesis by simp
    qed
  qed
qed

lemma monotonic_from_iff:
  "monotonic_from n m s \<longleftrightarrow>
     (\<forall>p \<in> set s. first p < second p \<and> second p < n)
     \<and> sorted_wrt (<) (map first s) \<and> (s \<noteq> [] \<longrightarrow> m \<le> first (hd s))"
proof (induction s arbitrary: m)
  case Nil
  show ?case by simp
next
  case (Cons p s)
  have "(s \<noteq> [] \<longrightarrow> Suc (first p) \<le> first (hd s)) \<longleftrightarrow> (\<forall>q \<in> set s. first p < first q)"
    if "sorted_wrt (<) (map first s)"
  proof (cases s)
    case Nil
    then show ?thesis by simp
  next
    case (Cons q s')
    with that show ?thesis by auto
  qed
  then show ?case
    by (auto simp: Cons.IH)
qed

lemma unique_sequences_eq:
  assumes "0 \<le> N" "N < 2 ^ 64"
  shows "unique_sequences (nat N) l m = set (sequences N l m)"
  by (simp add: set_sequences [OF assms] unique_sequences_def monotonic_from_iff)

lemma card_unique_sequences:
  assumes "0 \<le> N" "N < 2 ^ 64"
  shows "card (unique_sequences (nat N) l m) = length (sequences N l m)"
  by (simp add: unique_sequences_eq [OF assms] distinct_card distinct_sequences)

section \<open>Distinct sequences give distinct permutations\<close>

lemma monotonic_from_in_bounds: "monotonic_from n m s \<Longrightarrow> in_bounds n s"
  by (induction s arbitrary: m) (auto simp: in_bounds_def)

lemma fold_swap_pair_below:
  "monotonic_from n m s \<Longrightarrow> i < m \<Longrightarrow> fold swap_pair s ys ! i = ys ! i"
proof (induction s arbitrary: m ys)
  case Nil
  show ?case by simp
next
  case (Cons p s)
  from Cons.prems have "monotonic_from n (Suc (first p)) s" "i < Suc (first p)" by simp_all
  from Cons.IH [OF this] have "fold swap_pair s (swap_pair p ys) ! i = swap_pair p ys ! i" .
  moreover from Cons.prems have "swap_pair p ys ! i = ys ! i"
    by (simp add: swap_pair_def)
  ultimately show ?case by simp
qed

lemma fold_swap_pair_at_first:
  assumes "monotonic_from n m (p # s)" "length ys = n"
  shows "fold swap_pair (p # s) ys ! first p = ys ! second p"
proof -
  from assms(1) have "monotonic_from n (Suc (first p)) s" by simp
  from fold_swap_pair_below [OF this, of "first p"]
  have "fold swap_pair s (swap_pair p ys) ! first p = swap_pair p ys ! first p" by simp
  moreover from assms have "swap_pair p ys ! first p = ys ! second p"
    by (simp add: swap_pair_def)
  ultimately show ?thesis by simp
qed

lemma fold_swap_pair_changes:
  assumes "monotonic_from n m (p # s)" "length ys = n" "distinct ys"
  shows "fold swap_pair (p # s) ys ! first p \<noteq> ys ! first p"
proof -
  from assms(1,2) have "first p < length ys" "second p < length ys" "first p \<noteq> second p"
    by simp_all
  with assms(3) have "ys ! second p \<noteq> ys ! first p"
    by (simp add: nth_eq_iff_index_eq)
  with fold_swap_pair_at_first [OF assms(1,2)] show ?thesis by simp
qed

lemma fold_swap_pair_inj:
  assumes "length ys = n" "distinct ys"
  shows "monotonic_from n m s \<Longrightarrow> monotonic_from n m' t \<Longrightarrow>
    fold swap_pair s ys = fold swap_pair t ys \<Longrightarrow> s = t"
  using assms
proof (induction s arbitrary: t ys m m')
  case Nil
  show ?case
  proof (cases t)
    case Nil
    then show ?thesis by simp
  next
    case (Cons q t')
    with Nil.prems fold_swap_pair_changes [of n m' q t' ys] show ?thesis by simp
  qed
next
  case (Cons p s)
  note ys = \<open>length ys = n\<close> \<open>distinct ys\<close>
  note ps = \<open>monotonic_from n m (p # s)\<close>
  show ?case
  proof (cases t)
    case Nil
    with Cons.prems fold_swap_pair_changes [OF ps ys] show ?thesis by simp
  next
    case t: (Cons q t')
    with Cons.prems have qt: "monotonic_from n m' (q # t')"
      and eq: "fold swap_pair (p # s) ys = fold swap_pair (q # t') ys"
      by simp_all
    have ps': "monotonic_from n (first p) (p # s)" using ps by simp
    have qt': "monotonic_from n (first q) (q # t')" using qt by simp
    have "first p = first q"
    proof (rule ccontr)
      assume ne: "first p \<noteq> first q"
      show False
      proof (cases "first p < first q")
        case True
        from fold_swap_pair_below [OF qt' True, of ys] eq
        have "fold swap_pair (p # s) ys ! first p = ys ! first p" by simp
        with fold_swap_pair_changes [OF ps ys] show False by simp
      next
        case False
        with ne have lt: "first q < first p" by simp
        from fold_swap_pair_below [OF ps' lt, of ys] eq
        have "fold swap_pair (q # t') ys ! first q = ys ! first q" by simp
        with fold_swap_pair_changes [OF qt ys] show False by simp
      qed
    qed
    moreover have "second p = second q"
    proof -
      from fold_swap_pair_at_first [OF ps ys(1)] fold_swap_pair_at_first [OF qt ys(1)] eq
        \<open>first p = first q\<close>
      have "ys ! second p = ys ! second q" by simp
      moreover from ps qt ys(1) have "second p < length ys" "second q < length ys" by simp_all
      ultimately show ?thesis using ys(2) by (simp add: nth_eq_iff_index_eq)
    qed
    ultimately have pq: "p = q" by simp
    from ps ys(1) have b: "first p < length ys" "second p < length ys" by simp_all
    have "s = t'"
    proof (rule Cons.IH)
      show "monotonic_from n (Suc (first p)) s" using ps by simp
      show "monotonic_from n (Suc (first p)) t'" using qt pq by simp
      show "fold swap_pair s (swap_pair p ys) = fold swap_pair t' (swap_pair p ys)"
        using eq pq by simp
      show "length (swap_pair p ys) = n" using ys(1) by simp
      show "distinct (swap_pair p ys)"
        using b ys(2) by (simp add: swap_pair_def distinct_swap)
    qed
    with pq t show ?thesis by simp
  qed
qed

section \<open>Running the model on small inputs\<close>

lemma replicate_numeral: "replicate (numeral k) x = x # replicate (pred_numeral k) x"
  by (simp add: numeral_eq_Suc)

lemmas counter_eval = num_unique_permutations_def num_unique_permutations_ge_min.simps
  total_loop.simps word_le_nat_alt word_less_nat_alt

lemmas loop_eval = inner_permutation_loop.simps loop_I.simps loop_J.simps size_t_of_int_def
  int_of_size_t_def copy_TMP_def assign_TMP_def zero_pair_def

lemma count_3_2: "num_unique_permutations 3 2 = Some 2"
  by (simp add: counter_eval)

lemma count_4_2: "num_unique_permutations 4 2 = Some 11"
  by (simp add: counter_eval)

lemma enum_3_2:
  "get_all_unique_permutations 3 2 [zero_pair, zero_pair]
    = Inr [[\<lparr>first = 0, second = 1\<rparr>, \<lparr>first = 1, second = 2\<rparr>],
           [\<lparr>first = 0, second = 2\<rparr>, \<lparr>first = 1, second = 2\<rparr>]]"
  by (simp add: get_all_unique_permutations_def count_3_2 vector_max_size_def replicate_numeral)
    (simp add: loop_eval)

lemma enum_4_2:
  "get_all_unique_permutations 4 2 [zero_pair, zero_pair]
    = Inr [[\<lparr>first = 0, second = 1\<rparr>, \<lparr>first = 1, second = 2\<rparr>],
           [\<lparr>first = 0, second = 1\<rparr>, \<lparr>first = 1, second = 3\<rparr>],
           [\<lparr>first = 0, second = 1\<rparr>, \<lparr>first = 2, second = 3\<rparr>],
           [\<lparr>first = 0, second = 2\<rparr>, \<lparr>first = 1, second = 2\<rparr>],
           [\<lparr>first = 0, second = 2\<rparr>, \<lparr>first = 1, second = 3\<rparr>],
           [\<lparr>first = 0, second = 2\<rparr>, \<lparr>first = 2, second = 3\<rparr>],
           [\<lparr>first = 0, second = 3\<rparr>, \<lparr>first = 1, second = 2\<rparr>],
           [\<lparr>first = 0, second = 3\<rparr>, \<lparr>first = 1, second = 3\<rparr>],
           [\<lparr>first = 0, second = 3\<rparr>, \<lparr>first = 2, second = 3\<rparr>],
           [\<lparr>first = 1, second = 2\<rparr>, \<lparr>first = 2, second = 3\<rparr>],
           [\<lparr>first = 1, second = 3\<rparr>, \<lparr>first = 2, second = 3\<rparr>]]"
  by (simp add: get_all_unique_permutations_def count_4_2 vector_max_size_def replicate_numeral)
    (simp add: loop_eval)

section \<open>The claims about the enumerator\<close>

lemma get_all_unique_permutations_Inr:
  assumes "1 \<le> N" "N < 2 ^ 31" "1 \<le> L" "L < 2 ^ 31" "length TMP0 = nat L"
    and "get_all_unique_permutations N L TMP0 = Inr out"
  shows "out = sequences N (nat L) 0"
  using get_all_unique_permutations_sequences [OF assms(1-5)] assms(6)
  by (simp split: if_splits)

text \<open>
  The enumeration returns its vector whenever the number of sequences does not exceed
  \<open>vector_max_size\<close> (and the allocation of that many elements succeeds, which the model
  takes for granted).
\<close>

lemma vector_max_size_less: "vector_max_size L < 2 ^ 63"
proof -
  have "vector_max_size L \<le> 2 ^ 63 - 1"
    unfolding vector_max_size_def by (rule div_le_dividend)
  then show ?thesis by simp
qed

lemma get_all_unique_permutations_returns:
  assumes "1 \<le> N" "N < 2 ^ 31" "1 \<le> L" "L < 2 ^ 31" "length TMP0 = nat L"
    and "length (sequences N (nat L) 0) \<le> vector_max_size L"
  shows "get_all_unique_permutations N L TMP0 = Inr (sequences N (nat L) 0)"
proof -
  from assms(6) vector_max_size_less [of L]
  have "length (sequences N (nat L) 0) < 2 ^ 63" by simp
  then have "length (sequences N (nat L) 0) < 2 ^ 64" by simp
  with assms(6) get_all_unique_permutations_sequences [OF assms(1-5)] show ?thesis
    by simp
qed

text \<open>
  For \<open>N = 65535\<close>, \<open>L = 2\<close> the number of sequences still fits \<^verbatim>\<open>size_t\<close> and exceeds
  \<open>vector_max_size\<close>: between \<open>16383 * 49152 * 16384 * 32768\<close> sequences (those with
  \<open>first < 16383\<close> and \<open>second - first \<le> 49152\<close> in the first pair, \<open>16383 \<le> first < 32767\<close>
  and \<open>second - first \<le> 32768\<close> in the second) and \<open>65535 ^ 4\<close>. The constructor of the
  vector throws and no traversal takes place.
\<close>

lemma unique_sequences_65535_2_lower:
  "16383 * 49152 * 16384 * 32768 \<le> card (unique_sequences 65535 2 0)"
proof -
  define f :: "nat \<times> nat \<times> nat \<times> nat \<Rightarrow> index_permutation list"
    where "f = (\<lambda>(i, a, j, b).
      [\<lparr>first = i, second = i + 1 + a\<rparr>, \<lparr>first = 16383 + j, second = 16383 + j + 1 + b\<rparr>])"
  define A :: "(nat \<times> nat \<times> nat \<times> nat) set"
    where "A = {..<16383} \<times> {..<49152} \<times> {..<16384} \<times> {..<32768}"
  have inj: "inj_on f A"
    by (auto simp: inj_on_def f_def)
  have sub: "f ` A \<subseteq> unique_sequences 65535 2 0"
    by (auto simp: f_def A_def unique_sequences_def)
  have "unique_sequences (nat 65535) 2 0 = set (sequences 65535 2 0)"
    by (rule unique_sequences_eq) simp_all
  then have fin: "finite (unique_sequences 65535 2 0)"
    by simp
  have "card A = 16383 * (49152 * (16384 * 32768))"
    by (simp add: A_def card_cartesian_product)
  then have "card (f ` A) = 16383 * 49152 * 16384 * 32768"
    by (simp add: card_image [OF inj])
  with card_mono [OF fin sub] show ?thesis
    by simp
qed

lemma unique_sequences_65535_2_upper:
  "card (unique_sequences 65535 2 0) < 2 ^ 64"
proof -
  define g :: "nat \<times> nat \<times> nat \<times> nat \<Rightarrow> index_permutation list"
    where "g = (\<lambda>(i, j, i', j'). [\<lparr>first = i, second = j\<rparr>, \<lparr>first = i', second = j'\<rparr>])"
  define D :: "(nat \<times> nat \<times> nat \<times> nat) set"
    where "D = {..<65535} \<times> {..<65535} \<times> {..<65535} \<times> {..<65535}"
  have "s \<in> g ` D" if "s \<in> unique_sequences 65535 2 0" for s
  proof -
    from that obtain p q where s: "s = [p, q]"
      by (auto simp: unique_sequences_def length_Suc_conv numeral_2_eq_2)
    with that have b: "first p < second p" "second p < 65535" "first q < second q" "second q < 65535"
      by (auto simp: unique_sequences_def)
    have "s = g (first p, second p, first q, second q)"
      by (simp add: s g_def)
    moreover from b have "(first p, second p, first q, second q) \<in> D"
      by (simp add: D_def)
    ultimately show ?thesis by blast
  qed
  then have sub: "unique_sequences 65535 2 0 \<subseteq> g ` D" by blast
  have fin: "finite D" by (simp add: D_def)
  have "card (unique_sequences 65535 2 0) \<le> card (g ` D)"
    using sub fin by (intro card_mono) simp_all
  also have "\<dots> \<le> card D"
    using fin by (rule card_image_le)
  also have "card D = 65535 * (65535 * (65535 * 65535))"
    by (simp add: D_def card_cartesian_product)
  finally show ?thesis by simp
qed

lemma get_all_unique_permutations_65535_2:
  "get_all_unique_permutations 65535 2 [zero_pair, zero_pair] = Inl LengthError"
proof -
  have "card (unique_sequences (nat 65535) (nat 2) 0) = length (sequences 65535 (nat 2) 0)"
    by (rule card_unique_sequences) simp_all
  with unique_sequences_65535_2_lower unique_sequences_65535_2_upper
  have "16383 * 49152 * 16384 * 32768 \<le> length (sequences 65535 (nat 2) 0)"
    and "length (sequences 65535 (nat 2) 0) < 2 ^ 64"
    by simp_all
  moreover have "vector_max_size 2 < 16383 * 49152 * 16384 * 32768"
    by (simp add: vector_max_size_def)
  ultimately have "vector_max_size 2 < length (sequences 65535 (nat 2) 0) mod 2 ^ 64"
    by simp
  with get_all_unique_permutations_sequences [of 65535 2 "[zero_pair, zero_pair]"]
  show ?thesis by simp
qed

text \<open>
  C4. The claim reads: for \<open>L = 0\<close> the result has a single element, and writing the
  pair \<open>{0,0}\<close> into position 0 of that element is within bounds. The element is an
  array of \<open>L = 0\<close> pairs: it has no position 0, and the assignment \<open>OUT[0][0] = {0,0}\<close>
  is out of bounds, for every \<open>N\<close>.
\<close>

theorem get_all_unique_permutations_level_0:
  "get_all_unique_permutations N 0 TMP0 = Inl OutOfBounds"
  by (simp add: get_all_unique_permutations_def num_unique_permutations_def vector_max_size_def)

text \<open>
  C10. The claim reads: the enumeration at \<open>L = 0\<close> yields exactly one sequence, whose
  execution returns the input unchanged. The empty sequence does leave every input as it
  is, but the enumeration at \<open>L = 0\<close> ends in the out-of-bounds assignment of C4 and
  yields no sequence; here for \<open>N = 6\<close>.
\<close>

theorem get_all_unique_permutations_identity:
  "get_all_unique_permutations 6 0 [] = Inl OutOfBounds
    \<and> execute_permutations [] ''abcdef'' = Inr ''abcdef''"
  by (simp add: get_all_unique_permutations_def num_unique_permutations_def
      vector_max_size_def execute_permutations_def)

text \<open>
  C1. The claim reads: for every \<open>N \<ge> 1\<close> and \<open>0 \<le> L \<le> N - 1\<close> the enumeration returns
  \<open>num_unique_permutations N L\<close> sequences of \<open>L\<close> pairs each. For \<open>N = 3\<close>, \<open>L = 0\<close> the
  counter returns 1, and the enumeration returns no vector of one sequence: it ends in
  the out-of-bounds assignment of C4.
\<close>

theorem get_all_unique_permutations_length_level_0:
  "num_unique_permutations 3 0 = Some 1
    \<and> get_all_unique_permutations 3 0 [] = Inl OutOfBounds"
  by (simp add: get_all_unique_permutations_def num_unique_permutations_def vector_max_size_def)

text \<open>
  C6. For C++ \<open>int\<close>s \<open>N \<ge> 1\<close> and \<open>1 \<le> L \<le> N - 1\<close>, every sequence \<open>s\<close> of the vector
  returned by \<open>get_all_unique_permutations\<close> is well-formed: each of its pairs has
  \<open>first < second \<le> N - 1\<close>, and for positions \<open>p < q\<close> of \<open>s\<close> the lower index of the
  pair at \<open>q\<close> is at least one greater than the lower index of the pair at \<open>p\<close>.
\<close>

theorem get_all_unique_permutations_well_formed:
  assumes "1 \<le> N" "N < 2 ^ 31" "1 \<le> L" "L \<le> N - 1" "length TMP0 = nat L"
    and "get_all_unique_permutations N L TMP0 = Inr out"
    and "s \<in> set out"
  shows "(\<forall>i < length s. first (s ! i) < second (s ! i) \<and> int (second (s ! i)) \<le> N - 1)
    \<and> (\<forall>p q. p < q \<and> q < length s \<longrightarrow> first (s ! p) + 1 \<le> first (s ! q))"
proof -
  from assms(2,4) have "L < 2 ^ 31" by simp
  from get_all_unique_permutations_Inr [OF assms(1-3) this assms(5,6)] assms(7)
  have "s \<in> set (sequences N (nat L) 0)" by simp
  moreover from assms(1,2) have "0 \<le> N" "N < 2 ^ 64" by simp_all
  ultimately have "monotonic_from (nat N) 0 s"
    using sequences_sound by blast
  then have pairs: "\<forall>p \<in> set s. first p < second p \<and> second p < nat N"
    and sorted: "sorted_wrt (<) (map first s)"
    by (simp_all add: monotonic_from_iff)
  have "first (s ! i) < second (s ! i) \<and> int (second (s ! i)) \<le> N - 1" if "i < length s" for i
  proof -
    from that have "s ! i \<in> set s" by simp
    with pairs have "first (s ! i) < second (s ! i)" "second (s ! i) < nat N" by simp_all
    then show ?thesis by linarith
  qed
  moreover have "first (s ! p) + 1 \<le> first (s ! q)" if "p < q" "q < length s" for p q
  proof -
    from sorted that have "map first s ! p < map first s ! q"
      by (simp add: sorted_wrt_iff_nth_less)
    with that show ?thesis by simp
  qed
  ultimately show ?thesis by blast
qed

theorem get_all_unique_permutations_well_formed_witness:
  "get_all_unique_permutations 4 2 [zero_pair, zero_pair]
      = Inr [[\<lparr>first = 0, second = 1\<rparr>, \<lparr>first = 1, second = 2\<rparr>],
           [\<lparr>first = 0, second = 1\<rparr>, \<lparr>first = 1, second = 3\<rparr>],
           [\<lparr>first = 0, second = 1\<rparr>, \<lparr>first = 2, second = 3\<rparr>],
           [\<lparr>first = 0, second = 2\<rparr>, \<lparr>first = 1, second = 2\<rparr>],
           [\<lparr>first = 0, second = 2\<rparr>, \<lparr>first = 1, second = 3\<rparr>],
           [\<lparr>first = 0, second = 2\<rparr>, \<lparr>first = 2, second = 3\<rparr>],
           [\<lparr>first = 0, second = 3\<rparr>, \<lparr>first = 1, second = 2\<rparr>],
           [\<lparr>first = 0, second = 3\<rparr>, \<lparr>first = 1, second = 3\<rparr>],
           [\<lparr>first = 0, second = 3\<rparr>, \<lparr>first = 2, second = 3\<rparr>],
           [\<lparr>first = 1, second = 2\<rparr>, \<lparr>first = 2, second = 3\<rparr>],
           [\<lparr>first = 1, second = 3\<rparr>, \<lparr>first = 2, second = 3\<rparr>]]
    \<and> first ([\<lparr>first = 0, second = 3\<rparr>, \<lparr>first = 2, second = 3\<rparr>] ! 0)
        < second ([\<lparr>first = 0, second = 3\<rparr>, \<lparr>first = 2, second = 3\<rparr>] ! 0)
    \<and> int (second ([\<lparr>first = 0, second = 3\<rparr>, \<lparr>first = 2, second = 3\<rparr>] ! 1)) \<le> 4 - 1
    \<and> first ([\<lparr>first = 0, second = 3\<rparr>, \<lparr>first = 2, second = 3\<rparr>] ! 0) + 1
        \<le> first ([\<lparr>first = 0, second = 3\<rparr>, \<lparr>first = 2, second = 3\<rparr>] ! 1)"
  using get_all_unique_permutations_well_formed
    [of 4 2 "[zero_pair, zero_pair]" _ "[\<lparr>first = 0, second = 3\<rparr>, \<lparr>first = 2, second = 3\<rparr>]",
     OF _ _ _ _ _ enum_4_2]
  by (simp add: enum_4_2)

lemma execute_permutations_fold:
  assumes "in_bounds (length xs) PLIST"
  shows "execute_permutations PLIST xs = Inr (fold swap_pair PLIST xs)"
proof -
  from assms have "in_bounds (length (exec_OUT \<lparr>exec_IN = xs, exec_OUT = xs\<rparr>)) PLIST"
    by simp
  from exec_loop_in_bounds [OF this] show ?thesis
    by (simp add: execute_permutations_def)
qed

text \<open>
  C2. For C++ \<open>int\<close>s \<open>N \<ge> 1\<close> and \<open>1 \<le> L \<le> N - 1\<close> and a reference collection \<open>xs\<close> of
  \<open>N\<close> distinct elements, \<open>execute_permutations\<close> succeeds on every sequence of the
  vector returned by \<open>get_all_unique_permutations\<close>, and the collections it returns
  along the vector are pairwise distinct: no two sequences realise the same permutation.
\<close>

theorem get_all_unique_permutations_distinct:
  fixes xs :: "'a list"
  assumes "1 \<le> N" "N < 2 ^ 31" "1 \<le> L" "L \<le> N - 1" "length TMP0 = nat L"
    and "get_all_unique_permutations N L TMP0 = Inr out"
    and "length xs = nat N" "distinct xs"
  shows "distinct (map (\<lambda>s. execute_permutations s xs) out)
    \<and> (\<forall>s \<in> set out. \<exists>ys. execute_permutations s xs = Inr ys)"
proof -
  from assms(2,4) have "L < 2 ^ 31" by simp
  from get_all_unique_permutations_Inr [OF assms(1-3) this assms(5,6)]
  have out: "out = sequences N (nat L) 0" .
  from assms(1,2) have N64: "0 \<le> N" "N < 2 ^ 64" by simp_all
  have mono: "monotonic_from (nat N) 0 s" if "s \<in> set out" for s
    using that sequences_sound [OF N64] out by blast
  have exec: "execute_permutations s xs = Inr (fold swap_pair s xs)" if "s \<in> set out" for s
    using monotonic_from_in_bounds [OF mono [OF that]] assms(7)
    by (intro execute_permutations_fold) simp
  have "inj_on (\<lambda>s. fold swap_pair s xs) (set out)"
  proof (rule inj_onI)
    fix s t
    assume "s \<in> set out" "t \<in> set out" "fold swap_pair s xs = fold swap_pair t xs"
    with fold_swap_pair_inj [OF assms(7,8) mono mono] show "s = t" by blast
  qed
  moreover have "distinct out"
    by (simp add: out distinct_sequences)
  ultimately have "distinct out"
    and "inj_on (\<lambda>s. Inr (fold swap_pair s xs) :: error + 'a list) (set out)"
    by (auto simp: inj_on_def)
  then have d: "distinct (map (\<lambda>s. Inr (fold swap_pair s xs) :: error + 'a list) out)"
    by (simp add: distinct_map)
  have eq: "map (\<lambda>s. execute_permutations s xs) out
      = map (\<lambda>s. Inr (fold swap_pair s xs)) out"
    using exec by simp
  have "distinct (map (\<lambda>s. execute_permutations s xs) out)"
    unfolding eq by (rule d)
  with exec show ?thesis
    by auto
qed

theorem get_all_unique_permutations_distinct_witness:
  "get_all_unique_permutations 3 2 [zero_pair, zero_pair]
      = Inr [[\<lparr>first = 0, second = 1\<rparr>, \<lparr>first = 1, second = 2\<rparr>],
             [\<lparr>first = 0, second = 2\<rparr>, \<lparr>first = 1, second = 2\<rparr>]]
    \<and> length ''abc'' = nat 3 \<and> distinct ''abc''
    \<and> distinct (map (\<lambda>s. execute_permutations s ''abc'')
        [[\<lparr>first = 0, second = 1\<rparr>, \<lparr>first = 1, second = 2\<rparr>],
         [\<lparr>first = 0, second = 2\<rparr>, \<lparr>first = 1, second = 2\<rparr>]])
    \<and> execute_permutations [\<lparr>first = 0, second = 1\<rparr>, \<lparr>first = 1, second = 2\<rparr>] ''abc'' = Inr ''bca''
    \<and> execute_permutations [\<lparr>first = 0, second = 2\<rparr>, \<lparr>first = 1, second = 2\<rparr>] ''abc'' = Inr ''cab''"
  using get_all_unique_permutations_distinct [of 3 2 "[zero_pair, zero_pair]" _ "''abc''", OF _ _ _ _ _ enum_3_2]
  by (simp add: enum_3_2 execute_permutations_def iter_swap_def)

section \<open>The claim about the recursive counter\<close>

text \<open>
  With \<open>N = 1\<close> the bound \<open>N - 2\<close> wraps around to \<open>2 ^ 64 - 1\<close>: the guard
  \<open>MIN > N - 2\<close> never holds and the test \<open>I \<le> N - 2\<close> never fails, so for \<open>L \<ge> 1\<close> the
  loop of \<open>num_unique_permutations_ge_min\<close> does not end.
\<close>

lemma total_loop_Some_bound:
  assumes "total_loop f N I tot = Some y"
  shows "N - 2 \<noteq> - 1"
proof (rule total_loop.raw_induct [where P = "\<lambda>f N I tot y. N - 2 \<noteq> - 1", OF _ assms])
  fix total_loop' :: "(size_t \<Rightarrow> size_t option) \<Rightarrow> size_t \<Rightarrow> size_t \<Rightarrow> size_t \<Rightarrow> size_t option"
    and f N I tot y
  assume IH: "\<And>f N I tot y. total_loop' f N I tot = Some y \<Longrightarrow> N - 2 \<noteq> - 1"
    and step: "(if I \<le> N - 2
      then case f I of None \<Rightarrow> None
           | Some r \<Rightarrow> total_loop' f N (I + 1) (tot + (N - I - 1) * r)
      else Some tot) = Some y"
  show "N - 2 \<noteq> - 1"
  proof
    assume max: "N - 2 = - 1"
    then have "I \<le> N - 2" by simp
    with step obtain r where "total_loop' f N (I + 1) (tot + (N - I - 1) * r) = Some y"
      by (auto split: option.splits)
    from IH [OF this] max show False by simp
  qed
qed

lemma num_unique_permutations_ge_min_diverges:
  assumes "L \<noteq> 0"
  shows "num_unique_permutations_ge_min 1 L MIN' = None"
proof -
  have "\<not> (- 1 :: size_t) < MIN'" by simp
  with assms have "num_unique_permutations_ge_min 1 L MIN'
      = total_loop (\<lambda>I. num_unique_permutations_ge_min 1 (L - 1) I) 1 (MIN' + 1) 0"
    by (subst num_unique_permutations_ge_min.simps) simp
  moreover have "total_loop (\<lambda>I. num_unique_permutations_ge_min 1 (L - 1) I) 1 (MIN' + 1) 0 \<noteq> Some y"
    for y
    using total_loop_Some_bound [of "\<lambda>I. num_unique_permutations_ge_min 1 (L - 1) I" 1 "MIN' + 1" 0 y]
    by auto
  ultimately show ?thesis
    by (cases "num_unique_permutations_ge_min 1 L MIN'") auto
qed

lemma card_unique_sequences_4_1: "card (unique_sequences 4 1 0) = 6"
proof -
  have "card (unique_sequences (nat 4) 1 0) = length (sequences 4 1 0)"
    by (rule card_unique_sequences) simp_all
  also have "\<dots> = 6"
    by (simp add: sequences.simps(2) size_t_of_int_def upt_rec)
  finally show ?thesis by simp
qed

text \<open>
  C5. The claim reads, as the comment above the function in the source does: for
  \<open>N \<ge> 1\<close>, \<open>num_unique_permutations_ge_min N L MIN\<close> is the number of sequences of \<open>L\<close>
  transpositions over \<open>N\<close> elements, with strictly increasing lower indices, whose first
  lower index is at least \<open>MIN\<close>; and it is 0 when \<open>MIN > N - 2\<close>. For \<open>N = 4\<close>, \<open>L = 1\<close>,
  \<open>MIN = 0\<close> there are 6 such sequences, the single transpositions
  (\<open>card_unique_sequences_4_1\<close>), as many as \<open>num_unique_pairs_ge_min 4 0\<close> counts pairs;
  the function returns 3, because its loop starts at \<open>MIN + 1\<close>. For \<open>N = 1\<close>, \<open>L = 1\<close>,
  \<open>MIN = 0\<close> the claim gives 0 and the function does not return: the unsigned \<open>N - 2\<close>
  wraps around and defeats both the guard and the loop test.
\<close>

theorem num_unique_permutations_ge_min_off_by_one:
  "num_unique_permutations_ge_min 4 1 0 = Some 3
    \<and> num_unique_pairs_ge_min 4 0 = 6
    \<and> length (sequences 4 1 0) = 6
    \<and> num_unique_permutations_ge_min 1 1 0 = None"
proof -
  have "num_unique_permutations_ge_min 4 1 0 = Some 3"
    by (simp add: counter_eval)
  moreover have "num_unique_pairs_ge_min 4 0 = 6"
    by (simp add: num_unique_pairs_ge_min_def word_le_nat_alt word_less_nat_alt)
  moreover have "length (sequences 4 1 0) = 6"
    by (simp add: sequences.simps(2) size_t_of_int_def upt_rec)
  moreover have "num_unique_permutations_ge_min 1 1 0 = None"
    by (rule num_unique_permutations_ge_min_diverges) simp
  ultimately show ?thesis by simp
qed

end
